theory Spec2Isabelle
  imports Main "HOL-Library.Sublist"
begin

section \<open>Message search engine: cache loader and query engine (src/main.py)\<close>

text \<open>
  The program keeps two module-level variables, \<^verbatim>\<open>message_cache\<close> and
  \<^verbatim>\<open>cache_loaded\<close>. \<^verbatim>\<open>load_all_messages\<close> fills the cache from a paginated
  upstream API, \<^verbatim>\<open>search_messages\<close> scans the cache, \<^verbatim>\<open>search\<close> is the
  HTTP handler in front of it and \<^verbatim>\<open>refresh_cache\<close> reloads the cache.

  Python strings are sequences of code points; the model keeps the code points below 256,
  one \<^typ>\<open>char\<close> each. A message is a JSON object whose values are strings: a dictionary
  from field names to strings.
\<close>

subsection \<open>Strings: \<^verbatim>\<open>str.lower\<close>, \<^verbatim>\<open>str.strip\<close>, \<^verbatim>\<open>in\<close>\<close>

definition lower_char :: "char \<Rightarrow> char" where
  "lower_char c =
     (let n = (of_char c :: nat)
      in if (65 \<le> n \<and> n \<le> 90) \<or> (192 \<le> n \<and> n \<le> 222 \<and> n \<noteq> 215)
         then char_of (n + 32) else c)"

definition lower :: "string \<Rightarrow> string" where
  "lower s = map lower_char s"

definition isspace :: "char \<Rightarrow> bool" where
  "isspace c =
     (let n = (of_char c :: nat)
      in (9 \<le> n \<and> n \<le> 13) \<or> (28 \<le> n \<and> n \<le> 32) \<or> n = 133 \<or> n = 160)"

definition strip :: "string \<Rightarrow> string" where
  "strip s = rev (dropWhile isspace (rev (dropWhile isspace s)))"

text \<open>\<^verbatim>\<open>needle in haystack\<close> on strings: the needle starts at some position.\<close>

fun starts_with :: "'a list \<Rightarrow> 'a list \<Rightarrow> bool" where
  "starts_with [] ys = True"
| "starts_with (x # xs) [] = False"
| "starts_with (x # xs) (y # ys) = (x = y \<and> starts_with xs ys)"

fun str_in :: "'a list \<Rightarrow> 'a list \<Rightarrow> bool" where
  "str_in needle [] = (needle = [])"
| "str_in needle (y # ys) = (starts_with needle (y # ys) \<or> str_in needle ys)"

subsection \<open>Records and the slice of a list\<close>

type_synonym msg = "string \<rightharpoonup> string"

text \<open>\<^verbatim>\<open>msg.get(key, "")\<close>\<close>

definition get_str :: "msg \<Rightarrow> string \<Rightarrow> string" where
  "get_str m k = (case m k of None \<Rightarrow> [] | Some v \<Rightarrow> v)"

text \<open>
  \<^verbatim>\<open>xs[start:stop]\<close> on Python integers: a negative bound counts from the end,
  both bounds are cut to the list, and an empty range gives the empty list.
\<close>

definition py_slice :: "'a list \<Rightarrow> int \<Rightarrow> int \<Rightarrow> 'a list" where
  "py_slice xs start stop =
     (let n = int (length xs);
          lo = (if start < 0 then max 0 (n + start) else min start n);
          hi = (if stop < 0 then max 0 (n + stop) else min stop n)
      in take (nat (hi - lo)) (drop (nat lo) xs))"

subsection \<open>The program state\<close>

text \<open>
  The two globals, and a log of what the loader did to the outside world: the
  \<^verbatim>\<open>(skip, limit)\<close> parameters of every GET it sent, and the duration of every
  \<^verbatim>\<open>asyncio.sleep\<close> it awaited, both in program order.
\<close>

record world =
  message_cache :: "msg list"
  cache_loaded :: bool
  requests :: "(int \<times> int) list"
  sleeps :: "nat list"

subsection \<open>\<^verbatim>\<open>search_messages\<close> and the \<^verbatim>\<open>/search\<close> handler\<close>

record result =
  res_total :: nat
  res_items :: "msg list"
  res_skip :: int
  res_limit :: int
  res_cache_size :: nat

definition msg_matches :: "string \<Rightarrow> msg \<Rightarrow> bool" where
  "msg_matches query_lower m =
     (str_in query_lower (lower (get_str m ''message'')) \<or>
      str_in query_lower (lower (get_str m ''user_name'')) \<or>
      str_in query_lower (lower (get_str m ''user_id'')))"

definition search_messages :: "world \<Rightarrow> string \<Rightarrow> int \<Rightarrow> int \<Rightarrow> result" where
  "search_messages w query skip limit =
     (let query_lower = lower query;
          matched = filter (msg_matches query_lower) (message_cache w);
          total = length matched;
          paginated = py_slice matched skip (skip + limit)
      in \<lparr>res_total = total, res_items = paginated, res_skip = skip, res_limit = limit,
          res_cache_size = length (message_cache w)\<rparr>)"

text \<open>
  The handler. Its parameters are declared \<^verbatim>\<open>Query(0, ge=0)\<close> and
  \<^verbatim>\<open>Query(100, ge=1, le=1000)\<close>: the framework answers a request that breaks a
  declared bound with a validation error (status 422) and never calls the body. The body
  raises \<^verbatim>\<open>HTTPException\<close> with a status code. The \<^verbatim>\<open>response_time_ms\<close> entry
  the body adds to the result is a clock reading and is left out.
\<close>

datatype error = RequestValidationError | HTTPException nat

definition search :: "world \<Rightarrow> string \<Rightarrow> int \<Rightarrow> int \<Rightarrow> error + result" where
  "search w q skip limit =
     (if skip < 0 \<or> limit < 1 \<or> 1000 < limit then Inl RequestValidationError
      else if \<not> cache_loaded w then Inl (HTTPException 503)
      else if q = [] \<or> strip q = [] then Inl (HTTPException 400)
      else Inr (search_messages w (strip q) skip limit))"

subsection \<open>The upstream API\<close>

text \<open>
  What one \<^verbatim>\<open>client.get\<close>, \<^verbatim>\<open>raise_for_status\<close> and \<^verbatim>\<open>response.json\<close>
  produce: the parsed body, with its \<^verbatim>\<open>items\<close> and \<^verbatim>\<open>total\<close> entries when it has
  them; an \<^verbatim>\<open>HTTPStatusError\<close> with the status code; or any other exception (a
  network error, a body that does not parse). The upstream answers the n-th request of
  the run of the program, given the request's \<^verbatim>\<open>skip\<close> and \<^verbatim>\<open>limit\<close>.
\<close>

datatype response =
    Json "msg list option" "int option"
  | HTTPStatusError nat
  | OtherException

type_synonym upstream = "nat \<Rightarrow> int \<Rightarrow> int \<Rightarrow> response"

subsection \<open>\<^verbatim>\<open>load_all_messages\<close>\<close>

definition limit_const :: int where
  "limit_const = 100"

definition max_retries :: nat where
  "max_retries = 5"

definition retry_statuses :: "nat list" where
  "retry_statuses = [400, 402, 403, 429, 404, 401, 405]"

text \<open>
  The inner \<^verbatim>\<open>while retry_count < max_retries and not success\<close> loop. It ends in one of
  two ways: a \<^verbatim>\<open>return\<close> from inside it, which ends the whole function, or by leaving
  the loop (its condition fails, or \<^verbatim>\<open>break\<close>) with the local variables as they are.
\<close>

datatype outcome =
    Returned world
  | Exited world int "msg list" bool

function retry_loop :: "upstream \<Rightarrow> world \<Rightarrow> int \<Rightarrow> msg list \<Rightarrow> nat \<Rightarrow> bool \<Rightarrow> outcome" where
  "retry_loop up w skip all_messages retry_count success =
     (if retry_count < max_retries \<and> \<not> success then
        (let w1 = w\<lparr>requests := requests w @ [(skip, limit_const)]\<rparr>
         in case up (length (requests w)) skip limit_const of
              Json data_items data_total \<Rightarrow>
                (let items = (case data_items of None \<Rightarrow> [] | Some xs \<Rightarrow> xs)
                 in if items = [] then
                      Returned (w1\<lparr>cache_loaded := True, message_cache := all_messages\<rparr>)
                    else
                      (let all_messages' = all_messages @ items;
                           total = (case data_total of None \<Rightarrow> 0 | Some t \<Rightarrow> t);
                           skip' = skip + limit_const;
                           w2 = w1\<lparr>sleeps := sleeps w1 @ [1]\<rparr>
                       in if total \<le> int (length all_messages') then
                            Returned (w2\<lparr>cache_loaded := True, message_cache := all_messages'\<rparr>)
                          else retry_loop up w2 skip' all_messages' retry_count True))
            | HTTPStatusError status_code \<Rightarrow>
                if status_code \<in> set retry_statuses then
                  (let retry_count' = retry_count + 1;
                       wait_time = 5 * 2 ^ retry_count'
                   in retry_loop up (w1\<lparr>sleeps := sleeps w1 @ [wait_time]\<rparr>)
                        skip all_messages retry_count' success)
                else Exited w1 skip all_messages success
            | OtherException \<Rightarrow>
                (let retry_count' = retry_count + 1;
                     w2 = (if retry_count' < max_retries
                           then w1\<lparr>sleeps := sleeps w1 @ [5]\<rparr> else w1)
                 in retry_loop up w2 skip all_messages retry_count' success))
      else Exited w skip all_messages success)"
  by pat_completeness auto
termination
  by (relation "measure (\<lambda>(up, w, skip, all_messages, retry_count, success).
         if success then 0 else Suc (max_retries - retry_count))") auto

declare retry_loop.simps [simp del]

text \<open>
  The outer \<^verbatim>\<open>while True\<close> loop and the lines after it. Nothing bounds the number of
  pages, so the loop need not end: the result is \<open>None\<close> when it does not.
\<close>

partial_function (option) load_loop :: "upstream \<Rightarrow> world \<Rightarrow> int \<Rightarrow> msg list \<Rightarrow> world option" where
  "load_loop up w skip all_messages =
     (case retry_loop up w skip all_messages 0 False of
        Returned w' \<Rightarrow> Some w'
      | Exited w' skip' all_messages' success \<Rightarrow>
          if \<not> success then Some (w'\<lparr>message_cache := all_messages', cache_loaded := True\<rparr>)
          else load_loop up w' skip' all_messages')"

definition load_all_messages :: "upstream \<Rightarrow> world \<Rightarrow> world option" where
  "load_all_messages up w =
     (if cache_loaded w then Some w else load_loop up w 0 [])"

definition refresh_cache :: "upstream \<Rightarrow> world \<Rightarrow> world option" where
  "refresh_cache up w = load_all_messages up (w\<lparr>cache_loaded := False\<rparr>)"

subsection \<open>Notions used to state the properties\<close>

text \<open>The full list of matches of a query, in cache order.\<close>

definition match_list :: "world \<Rightarrow> string \<Rightarrow> msg list" where
  "match_list w query = filter (msg_matches (lower query)) (message_cache w)"

text \<open>
  The records a response delivers, and the records delivered by the responses to a list of
  requests, the first of which is request number \<open>n\<close>.
\<close>

fun response_items :: "response \<Rightarrow> msg list" where
  "response_items (Json (Some xs) t) = xs"
| "response_items r = []"

fun fetched :: "upstream \<Rightarrow> nat \<Rightarrow> (int \<times> int) list \<Rightarrow> msg list" where
  "fetched up n [] = []"
| "fetched up n ((s, l) # rs) = response_items (up n s l) @ fetched up (Suc n) rs"

text \<open>A failed fetch that the inner loop answers with another attempt.\<close>

fun retryable_failure :: "response \<Rightarrow> bool" where
  "retryable_failure (HTTPStatusError status_code) = (status_code \<in> set retry_statuses)"
| "retryable_failure OtherException = True"
| "retryable_failure (Json data_items data_total) = False"

text \<open>
  What a stretch of a run has done, from the state \<open>w\<close> with accumulator \<open>acc\<close> to the
  state \<open>w'\<close> with accumulator \<open>acc'\<close>: it has sent some requests, and the accumulator
  has grown by the records that the responses to exactly these requests delivered.
\<close>

definition run_inv :: "upstream \<Rightarrow> world \<Rightarrow> msg list \<Rightarrow> world \<Rightarrow> msg list \<Rightarrow> bool" where
  "run_inv up w acc w' acc' =
     (\<exists>new. requests w' = requests w @ new \<and> acc' = acc @ fetched up (length (requests w)) new)"

subsection \<open>Example data\<close>

definition rec_A :: msg where
  "rec_A = [''message'' \<mapsto> ''Hello World'', ''user_name'' \<mapsto> ''Alice'', ''user_id'' \<mapsto> ''u1'']"

definition rec_B :: msg where
  "rec_B = [''message'' \<mapsto> ''second note'', ''user_name'' \<mapsto> ''Bob'', ''user_id'' \<mapsto> ''u2'']"

definition rec_C :: msg where
  "rec_C = [''message'' \<mapsto> ''world news'', ''user_id'' \<mapsto> ''u3'']"

definition loaded_world :: world where
  "loaded_world = \<lparr>message_cache = [rec_A, rec_B, rec_C], cache_loaded = True,
                    requests = [], sleeps = []\<rparr>"

definition fresh_world :: world where
  "fresh_world = \<lparr>message_cache = [], cache_loaded = False, requests = [], sleeps = []\<rparr>"

text \<open>An upstream that answers its requests from a fixed list, whatever they ask for.\<close>

definition scripted :: "response list \<Rightarrow> upstream" where
  "scripted rs n skip limit = (if n < length rs then rs ! n else OtherException)"

definition three_pages :: "response list" where
  "three_pages = [Json (Some [rec_A, rec_B]) (Some 3), Json (Some [rec_C]) (Some 3),
                  Json (Some []) (Some 3)]"

definition page_then_429 :: "response list" where
  "page_then_429 = Json (Some [rec_A, rec_B]) (Some 3) # replicate 5 (HTTPStatusError 429)"

definition only_429 :: "response list" where
  "only_429 = replicate 5 (HTTPStatusError 429)"

definition page_without_total :: "response list" where
  "page_without_total = [Json (Some [rec_B]) None]"

section \<open>Strings and slices\<close>

lemma starts_with_prefix: "starts_with xs ys = prefix xs ys"
  by (induction xs ys rule: starts_with.induct) auto

lemma str_in_sublist: "str_in xs ys = sublist xs ys"
  by (induction ys) (auto simp: starts_with_prefix sublist_Cons_right)

lemma py_slice_window:
  assumes "0 \<le> start" and "0 \<le> n"
  shows "py_slice xs start (start + n) = take (nat n) (drop (nat start) xs)"
proof (cases "start < int (length xs)")
  case True
  then have "min (start + n) (int (length xs)) - start = min n (int (length xs) - start)"
    by (simp add: min_def)
  moreover have "take (nat (min n (int (length xs) - start))) (drop (nat start) xs) =
                 take (nat n) (drop (nat start) xs)"
    using True assms by (simp add: min_def nat_diff_distrib)
  ultimately show ?thesis
    using True assms by (simp add: py_slice_def Let_def)
next
  case False
  then show ?thesis
    using assms by (simp add: py_slice_def Let_def)
qed

lemma py_slice_sublist: "sublist (py_slice xs start stop) xs"
proof -
  have "sublist (take n (drop m xs)) xs" for n m
    by (meson sublist_drop sublist_order.order_trans sublist_take)
  then show ?thesis by (simp add: py_slice_def Let_def)
qed

lemma py_slice_set: "set (py_slice xs start stop) \<subseteq> set xs"
  by (rule set_mono_sublist [OF py_slice_sublist])

lemma chunks_concat:
  "concat (map (\<lambda>k. take L (drop (k * L) xs)) [0..<n]) = take (n * L) xs"
proof (induction n)
  case 0
  then show ?case by simp
next
  case (Suc n)
  have "Suc n * L = n * L + L" by simp
  then have "take (Suc n * L) xs = take (n * L) xs @ take L (drop (n * L) xs)"
    by (simp only: take_add)
  with Suc show ?case by simp
qed

lemma msg_matches_field:
  assumes "msg_matches q m" and "q \<noteq> []"
  shows "\<exists>f \<in> {''message'', ''user_name'', ''user_id''}. \<exists>v. m f = Some v \<and> sublist q (lower v)"
proof -
  have field: "\<exists>v. m f = Some v \<and> sublist q (lower v)" if "str_in q (lower (get_str m f))" for f
  proof (cases "m f")
    case None
    with that assms(2) show ?thesis by (simp add: get_str_def lower_def str_in_sublist)
  next
    case (Some v)
    with that show ?thesis by (simp add: get_str_def str_in_sublist)
  qed
  from assms(1) show ?thesis
    unfolding msg_matches_def using field by blast
qed

lemma search_messages_window:
  assumes "0 \<le> skip" and "0 \<le> limit"
  shows "res_items (search_messages w query skip limit) =
         take (nat limit) (drop (nat skip) (match_list w query))"
  using assms by (simp add: search_messages_def Let_def match_list_def py_slice_window)

lemma search_messages_total:
  "res_total (search_messages w query skip limit) = length (match_list w query)"
  by (simp add: search_messages_def Let_def match_list_def)

lemma example_lower: "lower ''WORLD'' = ''world''"
  by code_simp

lemma example_msg_matches:
  "msg_matches ''world'' rec_A" "\<not> msg_matches ''world'' rec_B" "msg_matches ''world'' rec_C"
  by code_simp+

lemma example_strip:
  "strip '' WORLD '' = ''WORLD''" "strip ''WORLD'' = ''WORLD''" "strip ''  '' = []"
  by code_simp+

lemma example_match_list: "match_list loaded_world ''WORLD'' = [rec_A, rec_C]"
  by (simp add: match_list_def loaded_world_def example_lower example_msg_matches)

lemma example_matches:
  "res_items (search_messages loaded_world ''WORLD'' 0 10) = [rec_A, rec_C]"
  by (simp add: search_messages_window example_match_list)

section \<open>The query engine\<close>

text \<open>
  C1. For a non-empty query, every record of the page that \<^verbatim>\<open>search_messages\<close> returns
  is a record of the cache, and has one of the fields \<^verbatim>\<open>message\<close>, \<^verbatim>\<open>user_name\<close>,
  \<^verbatim>\<open>user_id\<close> present with a value whose lowercase form contains the lowercase query
  as a contiguous substring. A field that is missing never provides the match. This holds
  for every \<^verbatim>\<open>skip\<close> and \<^verbatim>\<open>limit\<close>, negative ones included.
\<close>

theorem search_page_matches:
  assumes "query \<noteq> []"
    and "m \<in> set (res_items (search_messages w query skip limit))"
  shows "m \<in> set (message_cache w) \<and>
         (\<exists>f \<in> {''message'', ''user_name'', ''user_id''}.
            \<exists>v. m f = Some v \<and> sublist (lower query) (lower v))"
proof -
  have "set (res_items (search_messages w query skip limit)) \<subseteq> set (match_list w query)"
    using py_slice_set [of "match_list w query" skip "skip + limit"]
    by (simp add: search_messages_def Let_def match_list_def)
  with assms(2) have m: "m \<in> set (message_cache w)" "msg_matches (lower query) m"
    by (auto simp: match_list_def)
  from assms(1) have "lower query \<noteq> []" by (simp add: lower_def)
  with m show ?thesis using msg_matches_field by blast
qed

text \<open>
  At the query \<^verbatim>\<open>WORLD\<close> the record \<open>rec_C\<close>, which has no \<^verbatim>\<open>user_name\<close>, is on
  the page, through its \<^verbatim>\<open>message\<close>.
\<close>

theorem search_page_matches_witness:
  "''WORLD'' \<noteq> [] \<and>
   rec_C \<in> set (res_items (search_messages loaded_world ''WORLD'' 0 10)) \<and>
   rec_C \<in> set (message_cache loaded_world) \<and>
   (\<exists>f v. (f = ''message'' \<or> f = ''user_name'' \<or> f = ''user_id'') \<and>
      rec_C f = Some v \<and> sublist (lower ''WORLD'') (lower v))"
proof -
  have q: "''WORLD'' \<noteq> []" by simp
  have m: "rec_C \<in> set (res_items (search_messages loaded_world ''WORLD'' 0 10))"
    by (simp add: example_matches)
  from search_page_matches [OF q m] q m show ?thesis by blast
qed

text \<open>
  C2. For a skip that is not negative and a page size \<open>L\<close> of at least 1, the page is the
  slice from \<open>skip\<close> to \<open>skip + L\<close> of the full match list; it keeps the order of the cache
  (it is a subsequence of it); the total reported is the length of the full match list;
  and the pages at skip 0, \<open>L\<close>, \<open>2L\<close>, ..., taken until they cover the match list, give
  the full match list when concatenated.
\<close>

theorem search_pagination:
  assumes "0 \<le> skip" and "1 \<le> L"
  shows "res_items (search_messages w query skip L) =
           take (nat L) (drop (nat skip) (match_list w query)) \<and>
         subseq (res_items (search_messages w query skip L)) (message_cache w) \<and>
         res_total (search_messages w query skip L) = length (match_list w query) \<and>
         (\<forall>n. length (match_list w query) \<le> n * nat L \<longrightarrow>
            concat (map (\<lambda>k. res_items (search_messages w query (int k * L) L)) [0..<n]) =
            match_list w query)"
proof -
  from assms(2) have L: "0 \<le> L" by simp
  have order: "subseq (res_items (search_messages w query skip L)) (message_cache w)"
  proof -
    have "subseq (res_items (search_messages w query skip L)) (match_list w query)"
      using sublist_imp_subseq [OF py_slice_sublist [of "match_list w query" skip "skip + L"]]
      by (simp add: search_messages_def Let_def match_list_def)
    moreover have "subseq (match_list w query) (message_cache w)"
      by (simp add: match_list_def)
    ultimately show ?thesis by (rule subseq_order.order_trans)
  qed
  have pages: "concat (map (\<lambda>k. res_items (search_messages w query (int k * L) L)) [0..<n]) =
               match_list w query" if "length (match_list w query) \<le> n * nat L" for n
  proof -
    have "res_items (search_messages w query (int k * L) L) =
          take (nat L) (drop (k * nat L) (match_list w query))" for k
      using L search_messages_window [of "int k * L" L w query] by (simp add: nat_mult_distrib)
    then have "concat (map (\<lambda>k. res_items (search_messages w query (int k * L) L)) [0..<n]) =
               take (n * nat L) (match_list w query)"
      by (simp add: chunks_concat)
    with that show ?thesis by simp
  qed
  show ?thesis
    using search_messages_window [OF assms(1) L] order pages
    by (simp add: search_messages_total)
qed

text \<open>Two matches, pages of one record: the second page, the total, and both pages joined.\<close>

theorem search_pagination_witness:
  "res_items (search_messages loaded_world ''WORLD'' 1 1) = [rec_C] \<and>
   res_total (search_messages loaded_world ''WORLD'' 1 1) = 2 \<and>
   res_items (search_messages loaded_world ''WORLD'' 0 1) @
   res_items (search_messages loaded_world ''WORLD'' 1 1) = [rec_A, rec_C]"
proof -
  have a: "(0::int) \<le> 1" and b: "(1::int) \<le> 1" by simp_all
  have n: "[0..<2] = [0, Suc 0]" by (simp add: upt_rec)
  note t = search_pagination [OF a b, of loaded_world "''WORLD''"]
  from t have
    "length (match_list loaded_world ''WORLD'') \<le> 2 * nat 1 \<longrightarrow>
     concat (map (\<lambda>k. res_items (search_messages loaded_world ''WORLD'' (int k * 1) 1)) [0..<2]) =
     match_list loaded_world ''WORLD''"
    by blast
  then have "res_items (search_messages loaded_world ''WORLD'' 0 1) @
             res_items (search_messages loaded_world ''WORLD'' 1 1) = [rec_A, rec_C]"
    by (simp add: example_match_list n)
  with t show ?thesis
    by (simp add: example_match_list)
qed

text \<open>
  C6, as the handler has it. The handler tests \<^verbatim>\<open>cache_loaded\<close> before it looks at the
  query. For a skip and a limit inside the declared bounds: while the cache is not loaded,
  every search fails with status 503, the search with an empty or blank query included;
  once the cache is loaded, a query that is empty after stripping fails with status 400.
\<close>

theorem search_rejections:
  assumes "0 \<le> skip" and "1 \<le> limit" and "limit \<le> 1000"
  shows "(\<not> cache_loaded w \<longrightarrow> search w q skip limit = Inl (HTTPException 503)) \<and>
         (cache_loaded w \<and> strip q = [] \<longrightarrow> search w q skip limit = Inl (HTTPException 400))"
  using assms by (simp add: search_def)

theorem search_rejections_witness:
  "search fresh_world ''x'' 0 100 = Inl (HTTPException 503) \<and>
   search fresh_world ''  '' 0 100 = Inl (HTTPException 503) \<and>
   search loaded_world ''  '' 0 100 = Inl (HTTPException 400)"
proof -
  have a: "(0::int) \<le> 0" and b: "(1::int) \<le> 100" and c: "(100::int) \<le> 1000" by simp_all
  note s = example_strip(3)
  from search_rejections [OF a b c, of fresh_world "''x''"]
       search_rejections [OF a b c, of fresh_world "''  ''"]
       search_rejections [OF a b c, of loaded_world "''  ''"] s
  show ?thesis by (simp add: fresh_world_def loaded_world_def)
qed

text \<open>
  The empty query against a cache that is not loaded: the answer is 503, not 400.
\<close>

theorem search_empty_query_unloaded_counterexample:
  "search fresh_world [] 0 100 = Inl (HTTPException 503) \<and>
   search fresh_world [] 0 100 \<noteq> Inl (HTTPException 400)"
  by (simp add: search_def fresh_world_def)

text \<open>
  C8, as the handler has it. Nothing is clamped. A request whose skip is negative, or whose
  limit is below 1 or above 1000, is refused with a validation error and no search runs.
  Every request that gets a result has its skip and limit inside the bounds, and the
  result echoes them and holds the slice taken with exactly these two values.
\<close>

theorem search_bounds:
  "(skip < 0 \<or> limit < 1 \<or> 1000 < limit \<longrightarrow> search w q skip limit = Inl RequestValidationError) \<and>
   (\<forall>r. search w q skip limit = Inr r \<longrightarrow>
      0 \<le> skip \<and> 1 \<le> limit \<and> limit \<le> 1000 \<and> res_skip r = skip \<and> res_limit r = limit \<and>
      res_items r = take (nat limit) (drop (nat skip) (match_list w (strip q))))"
proof -
  have "res_items r = take (nat limit) (drop (nat skip) (match_list w (strip q)))"
    if "search w q skip limit = Inr r" for r
  proof -
    from that have rng: "0 \<le> skip" "0 \<le> limit"
      and r: "r = search_messages w (strip q) skip limit"
      by (auto simp: search_def split: if_splits)
    from search_messages_window [OF rng] r show ?thesis by simp
  qed
  then show ?thesis
    by (auto simp: search_def search_messages_def Let_def split: if_splits)
qed

theorem search_bounds_witness:
  "search loaded_world ''WORLD'' 0 1001 = Inl RequestValidationError \<and>
   search loaded_world ''WORLD'' 0 0 = Inl RequestValidationError \<and>
   search loaded_world '' WORLD '' 1 1000 =
     Inr (search_messages loaded_world ''WORLD'' 1 1000) \<and>
   res_limit (search_messages loaded_world ''WORLD'' 1 1000) = 1000 \<and>
   res_items (search_messages loaded_world ''WORLD'' 1 1000) = [rec_C]"
proof -
  have l: "cache_loaded loaded_world" by (simp add: loaded_world_def)
  have e: "search loaded_world '' WORLD '' 1 1000 =
           Inr (search_messages loaded_world ''WORLD'' 1 1000)"
    by (simp add: search_def l example_strip(1))
  from search_bounds [of 0 1001 loaded_world "''WORLD''"]
       search_bounds [of 0 0 loaded_world "''WORLD''"]
       search_bounds [of 1 1000 loaded_world "'' WORLD ''"] e
  show ?thesis by (simp add: example_strip(1) example_match_list)
qed

text \<open>
  A skip of -1 is refused, while the nearest skip inside the bounds, 0, is served; a limit
  of 1001 is refused, while 1000 is served.
\<close>

theorem search_no_clamping_counterexample:
  "search loaded_world ''WORLD'' (- 1) 100 = Inl RequestValidationError \<and>
   search loaded_world ''WORLD'' 0 100 = Inr (search_messages loaded_world ''WORLD'' 0 100) \<and>
   search loaded_world ''WORLD'' (- 1) 100 \<noteq> search loaded_world ''WORLD'' (max 0 (- 1)) 100 \<and>
   search loaded_world ''WORLD'' 0 1001 \<noteq> search loaded_world ''WORLD'' 0 (min 1000 1001)"
proof -
  note s = example_strip(2)
  have l: "cache_loaded loaded_world" by (simp add: loaded_world_def)
  show ?thesis by (simp add: search_def s l)
qed

section \<open>The loader\<close>

subsection \<open>One pass through the inner loop\<close>

lemma retry_loop_exit:
  "max_retries \<le> retry_count \<or> success \<Longrightarrow>
   retry_loop up w skip acc retry_count success = Exited w skip acc success"
  by (subst retry_loop.simps) auto

lemma retry_loop_empty:
  assumes "retry_count < max_retries"
    and "up (length (requests w)) skip limit_const = Json data_items data_total"
    and "data_items = None \<or> data_items = Some []"
  shows "retry_loop up w skip acc retry_count False =
         Returned (w\<lparr>requests := requests w @ [(skip, limit_const)],
                     cache_loaded := True, message_cache := acc\<rparr>)"
  using assms by (subst retry_loop.simps) auto

lemma retry_loop_last_page:
  assumes "retry_count < max_retries"
    and "up (length (requests w)) skip limit_const = Json (Some items) data_total"
    and "items \<noteq> []"
    and "(case data_total of None \<Rightarrow> 0 | Some t \<Rightarrow> t) \<le> int (length (acc @ items))"
  shows "retry_loop up w skip acc retry_count False =
         Returned (w\<lparr>requests := requests w @ [(skip, limit_const)],
                     sleeps := sleeps w @ [1],
                     cache_loaded := True, message_cache := acc @ items\<rparr>)"
  using assms by (subst retry_loop.simps) (simp add: Let_def)

lemma retry_loop_page:
  assumes "retry_count < max_retries"
    and "up (length (requests w)) skip limit_const = Json (Some items) data_total"
    and "items \<noteq> []"
    and "int (length (acc @ items)) < (case data_total of None \<Rightarrow> 0 | Some t \<Rightarrow> t)"
  shows "retry_loop up w skip acc retry_count False =
         Exited (w\<lparr>requests := requests w @ [(skip, limit_const)],
                   sleeps := sleeps w @ [1]\<rparr>)
                (skip + limit_const) (acc @ items) True"
  using assms by (subst retry_loop.simps) (simp add: Let_def retry_loop_exit)

lemma retry_loop_status_retry:
  assumes "retry_count < max_retries"
    and "up (length (requests w)) skip limit_const = HTTPStatusError status_code"
    and "status_code \<in> set retry_statuses"
  shows "retry_loop up w skip acc retry_count False =
         retry_loop up (w\<lparr>requests := requests w @ [(skip, limit_const)],
                          sleeps := sleeps w @ [5 * 2 ^ (retry_count + 1)]\<rparr>)
           skip acc (retry_count + 1) False"
  using assms by (subst retry_loop.simps) (simp add: Let_def)

lemma retry_loop_status_fatal:
  assumes "retry_count < max_retries"
    and "up (length (requests w)) skip limit_const = HTTPStatusError status_code"
    and "status_code \<notin> set retry_statuses"
  shows "retry_loop up w skip acc retry_count False =
         Exited (w\<lparr>requests := requests w @ [(skip, limit_const)]\<rparr>) skip acc False"
  using assms by (subst retry_loop.simps) (simp add: Let_def)

lemma retry_loop_other:
  assumes "retry_count < max_retries"
    and "up (length (requests w)) skip limit_const = OtherException"
  shows "retry_loop up w skip acc retry_count False =
         retry_loop up
           (if retry_count + 1 < max_retries
            then w\<lparr>requests := requests w @ [(skip, limit_const)], sleeps := sleeps w @ [5]\<rparr>
            else w\<lparr>requests := requests w @ [(skip, limit_const)]\<rparr>)
           skip acc (retry_count + 1) False"
  using assms by (subst retry_loop.simps) (simp add: Let_def)

lemma load_loop_returned:
  "retry_loop up w skip acc 0 False = Returned w' \<Longrightarrow> load_loop up w skip acc = Some w'"
  by (subst load_loop.simps) simp

lemma load_loop_failed:
  "retry_loop up w skip acc 0 False = Exited w' skip' acc' False \<Longrightarrow>
   load_loop up w skip acc = Some (w'\<lparr>message_cache := acc', cache_loaded := True\<rparr>)"
  by (subst load_loop.simps) simp

lemma load_loop_next:
  "retry_loop up w skip acc 0 False = Exited w' skip' acc' True \<Longrightarrow>
   load_loop up w skip acc = load_loop up w' skip' acc'"
  by (subst load_loop.simps) simp

subsection \<open>What a run accumulates\<close>

lemma fetched_append:
  "fetched up n (rs @ rs') = fetched up n rs @ fetched up (n + length rs) rs'"
  by (induction rs arbitrary: n) auto

lemma retry_loop_inv:
  "(case retry_loop up w skip acc retry_count False of
      Returned w' \<Rightarrow> cache_loaded w' \<and> run_inv up w acc w' (message_cache w') \<and> requests w' \<noteq> requests w
    | Exited w' skip' acc' success \<Rightarrow> run_inv up w acc w' acc' \<and> (retry_count < max_retries \<longrightarrow> requests w' \<noteq> requests w))"
proof (induction "max_retries - retry_count" arbitrary: retry_count w)
  case 0
  then show ?case by (simp add: retry_loop_exit run_inv_def)
next
  case (Suc k)
  then have lt: "retry_count < max_retries" by simp
  let ?w1 = "w\<lparr>requests := requests w @ [(skip, limit_const)]\<rparr>"
  show ?case
  proof (cases "up (length (requests w)) skip limit_const")
    case (Json data_items data_total)
    show ?thesis
    proof (cases "data_items = None \<or> data_items = Some []")
      case True
      then show ?thesis
        using retry_loop_empty [where up = up and w = w and skip = skip, OF lt Json True, of acc] Json
        by (auto simp: run_inv_def)
    next
      case False
      then obtain items where it: "data_items = Some items" "items \<noteq> []" by auto
      show ?thesis
      proof (cases "(case data_total of None \<Rightarrow> 0 | Some t \<Rightarrow> t) \<le> int (length (acc @ items))")
        case True
        show ?thesis
          using retry_loop_last_page [where up = up and w = w and skip = skip, OF lt Json [unfolded it(1)] it(2) True] Json it
          by (simp add: run_inv_def)
      next
        case False
        then have "int (length (acc @ items)) < (case data_total of None \<Rightarrow> 0 | Some t \<Rightarrow> t)" by simp
        from retry_loop_page [where up = up and w = w and skip = skip, OF lt Json [unfolded it(1)] it(2) this] Json it
        show ?thesis by (simp add: run_inv_def)
      qed
    qed
  next
    case (HTTPStatusError status_code)
    show ?thesis
    proof (cases "status_code \<in> set retry_statuses")
      case True
      let ?w2 = "w\<lparr>requests := requests w @ [(skip, limit_const)],
                     sleeps := sleeps w @ [5 * 2 ^ (retry_count + 1)]\<rparr>"
      have k: "k = max_retries - (retry_count + 1)" using Suc.hyps(2) by simp
      from Suc.hyps(1) [OF k, of ?w2] retry_loop_status_retry [where up = up and w = w and skip = skip, OF lt HTTPStatusError True, of acc]
      show ?thesis using HTTPStatusError
        by (auto simp: run_inv_def fetched_append split: outcome.splits)
    next
      case False
      from retry_loop_status_fatal [where up = up and w = w and skip = skip, OF lt HTTPStatusError False, of acc] HTTPStatusError
      show ?thesis by (simp add: run_inv_def)
    qed
  next
    case OtherException
    let ?w2 = "if retry_count + 1 < max_retries
            then w\<lparr>requests := requests w @ [(skip, limit_const)], sleeps := sleeps w @ [5]\<rparr>
            else w\<lparr>requests := requests w @ [(skip, limit_const)]\<rparr>"
    have k: "k = max_retries - (retry_count + 1)" using Suc.hyps(2) by simp
    have rq: "requests ?w2 = requests w @ [(skip, limit_const)]" by simp
    from Suc.hyps(1) [OF k, of ?w2] retry_loop_other [where up = up and w = w and skip = skip, OF lt OtherException, of acc]
    show ?thesis using OtherException rq
      by (auto simp: run_inv_def fetched_append split: outcome.splits)
  qed
qed

lemma run_inv_trans:
  "run_inv up w acc w1 acc1 \<Longrightarrow> run_inv up w1 acc1 w2 acc2 \<Longrightarrow> run_inv up w acc w2 acc2"
  by (auto simp: run_inv_def fetched_append)

lemma run_inv_grows:
  "run_inv up w acc w1 acc1 \<Longrightarrow> requests w1 \<noteq> requests w \<Longrightarrow> run_inv up w1 acc1 w2 acc2 \<Longrightarrow>
   requests w2 \<noteq> requests w"
  by (auto simp: run_inv_def)

lemma load_loop_inv:
  assumes "load_loop up w skip acc = Some w'"
  shows "cache_loaded w' \<and> run_inv up w acc w' (message_cache w') \<and> requests w' \<noteq> requests w"
proof (rule load_loop.raw_induct
    [where P = "\<lambda>up w skip acc w'. cache_loaded w' \<and> run_inv up w acc w' (message_cache w') \<and>
                  requests w' \<noteq> requests w", OF _ assms], goal_cases)
  case (1 f up w skip acc w')
  note inv = retry_loop_inv [where up = up and w = w and skip = skip and acc = acc and retry_count = 0]
  show ?case
  proof (cases "retry_loop up w skip acc 0 False")
    case (Returned w1)
    with 1(2) inv show ?thesis by simp
  next
    case (Exited w1 skip1 acc1 success)
    with inv have r: "run_inv up w acc w1 acc1" "requests w1 \<noteq> requests w"
      by (simp_all add: max_retries_def)
    show ?thesis
    proof (cases success)
      case False
      with 1(2) Exited r show ?thesis by (auto simp: run_inv_def)
    next
      case True
      with 1(2) Exited have "f up w1 skip1 acc1 = Some w'" by simp
      from 1(1) [OF this] have a: "cache_loaded w'"
        and b: "run_inv up w1 acc1 w' (message_cache w')" by simp_all
      from a run_inv_trans [OF r(1) b] run_inv_grows [OF r(1) r(2) b]
      show ?thesis by simp
    qed
  qed
qed

subsection \<open>Runs of the example upstreams\<close>

lemmas loader_eval = retry_loop.simps load_loop.simps load_all_messages_def refresh_cache_def
  Let_def scripted_def max_retries_def limit_const_def retry_statuses_def

lemma only_429_run:
  "load_all_messages (scripted only_429) fresh_world =
   Some \<lparr>message_cache = [], cache_loaded = True,
         requests = [(0, 100), (0, 100), (0, 100), (0, 100), (0, 100)],
         sleeps = [10, 20, 40, 80, 160]\<rparr>"
  by (simp add: loader_eval only_429_def fresh_world_def)

lemma page_then_429_run:
  "load_all_messages (scripted page_then_429) fresh_world =
   Some \<lparr>message_cache = [rec_A, rec_B], cache_loaded = True,
         requests = [(0, 100), (100, 100), (100, 100), (100, 100), (100, 100), (100, 100)],
         sleeps = [1, 10, 20, 40, 80, 160]\<rparr>"
  by (simp add: loader_eval page_then_429_def fresh_world_def)

lemma page_then_429_first:
  "load_all_messages (scripted page_then_429) fresh_world =
   load_loop (scripted page_then_429)
     \<lparr>message_cache = [], cache_loaded = False, requests = [(0, 100)], sleeps = [1]\<rparr>
     100 [rec_A, rec_B]"
  by (simp add: page_then_429_run) (simp add: loader_eval page_then_429_def)

lemma refresh_example:
  "refresh_cache (scripted page_without_total) loaded_world =
   Some \<lparr>message_cache = [rec_B], cache_loaded = True, requests = [(0, 100)], sleeps = [1]\<rparr>"
  by (simp add: loader_eval page_without_total_def loaded_world_def)

subsection \<open>Exhausted retries, in the inner loop\<close>

lemma retry_loop_exhausted:
  assumes "\<forall>i < max_retries - retry_count.
             retryable_failure (up (length (requests w) + i) skip limit_const)"
  shows "\<exists>w'. retry_loop up w skip acc retry_count False = Exited w' skip acc False \<and>
              requests w' = requests w @ replicate (max_retries - retry_count) (skip, limit_const) \<and>
              message_cache w' = message_cache w \<and> cache_loaded w' = cache_loaded w"
  using assms
proof (induction "max_retries - retry_count" arbitrary: retry_count w)
  case 0
  then show ?case by (simp add: retry_loop_exit)
next
  case (Suc k)
  then have lt: "retry_count < max_retries" by simp
  have k: "k = max_retries - (retry_count + 1)" using Suc.hyps(2) by simp
  from Suc.prems Suc.hyps(2)
  have now: "retryable_failure (up (length (requests w)) skip limit_const)"
    and later: "\<forall>i < k. retryable_failure (up (length (requests w) + Suc i) skip limit_const)"
    by (metis add.right_neutral zero_less_Suc, metis Suc_less_eq)
  have rep: "(skip, limit_const) # replicate k (skip, limit_const) =
             replicate (max_retries - retry_count) (skip, limit_const)"
    using Suc.hyps(2) by (metis replicate_Suc)
  show ?case
  proof (cases "up (length (requests w)) skip limit_const")
    case (Json data_items data_total)
    with now show ?thesis by simp
  next
    case (HTTPStatusError status_code)
    with now have st: "status_code \<in> set retry_statuses" by simp
    let ?w2 = "w\<lparr>requests := requests w @ [(skip, limit_const)],
                   sleeps := sleeps w @ [5 * 2 ^ (retry_count + 1)]\<rparr>"
    from later k have "\<forall>i < max_retries - (retry_count + 1).
             retryable_failure (up (length (requests ?w2) + i) skip limit_const)"
      by simp
    from Suc.hyps(1) [OF k this]
         retry_loop_status_retry [where up = up and w = w and skip = skip, OF lt HTTPStatusError st, of acc]
    show ?thesis using k rep by auto
  next
    case OtherException
    let ?w2 = "if retry_count + 1 < max_retries
            then w\<lparr>requests := requests w @ [(skip, limit_const)], sleeps := sleeps w @ [5]\<rparr>
            else w\<lparr>requests := requests w @ [(skip, limit_const)]\<rparr>"
    have rq: "requests ?w2 = requests w @ [(skip, limit_const)]"
      and mc: "message_cache ?w2 = message_cache w" "cache_loaded ?w2 = cache_loaded w" by simp_all
    from later k rq have "\<forall>i < max_retries - (retry_count + 1).
             retryable_failure (up (length (requests ?w2) + i) skip limit_const)"
      by simp
    from Suc.hyps(1) [OF k this]
         retry_loop_other [where up = up and w = w and skip = skip, OF lt OtherException, of acc]
    show ?thesis using k rep rq mc by auto
  qed
qed

section \<open>Properties of the loader\<close>

text \<open>
  C3. Let the cache be not loaded, and let the upstream answer the first request of the
  run (skip 0) with the page of items \<open>[A, B]\<close> and total 3, and the second (skip 100)
  with the page of items \<open>[C]\<close> and total 3. Then \<^verbatim>\<open>load_all_messages\<close> returns,
  with the cache \<open>[A, B, C]\<close> and \<^verbatim>\<open>cache_loaded\<close> true. It has sent these two
  requests and slept one time unit after each page. The run ends on the second page, whose
  total is reached: a third page, empty or not, is never asked for.
\<close>

theorem load_all_three_pages:
  assumes "\<not> cache_loaded w"
    and "up (length (requests w)) 0 limit_const = Json (Some [A, B]) (Some 3)"
    and "up (Suc (length (requests w))) limit_const limit_const = Json (Some [C]) (Some 3)"
  shows "load_all_messages up w =
         Some (w\<lparr>requests := requests w @ [(0, limit_const), (limit_const, limit_const)],
                 sleeps := sleeps w @ [1, 1],
                 cache_loaded := True, message_cache := [A, B, C]\<rparr>)"
proof -
  let ?w1 = "w\<lparr>requests := requests w @ [(0, limit_const)], sleeps := sleeps w @ [1]\<rparr>"
  have first: "retry_loop up w 0 [] 0 False = Exited ?w1 (0 + limit_const) ([] @ [A, B]) True"
    by (rule retry_loop_page [where data_total = "Some 3"])
       (use assms(2) in \<open>simp_all add: max_retries_def\<close>)
  have second: "retry_loop up ?w1 limit_const [A, B] 0 False =
                Returned (?w1\<lparr>requests := requests ?w1 @ [(limit_const, limit_const)],
                            sleeps := sleeps ?w1 @ [1],
                            cache_loaded := True, message_cache := [A, B] @ [C]\<rparr>)"
    by (rule retry_loop_last_page [where data_total = "Some 3"])
       (use assms(3) in \<open>simp_all add: max_retries_def\<close>)
  have "load_loop up w 0 [] = load_loop up ?w1 limit_const [A, B]"
    using load_loop_next [OF first] by simp
  also have "\<dots> = Some (?w1\<lparr>requests := requests ?w1 @ [(limit_const, limit_const)],
                            sleeps := sleeps ?w1 @ [1],
                            cache_loaded := True, message_cache := [A, B] @ [C]\<rparr>)"
    by (rule load_loop_returned [OF second])
  finally show ?thesis
    using assms(1) by (simp add: load_all_messages_def)
qed

text \<open>
  The upstream of three pages, the last one empty, from a fresh process.
\<close>

theorem load_all_three_pages_witness:
  "load_all_messages (scripted three_pages) fresh_world =
   Some \<lparr>message_cache = [rec_A, rec_B, rec_C], cache_loaded = True,
         requests = [(0, 100), (100, 100)], sleeps = [1, 1]\<rparr>"
proof -
  have a: "\<not> cache_loaded fresh_world" by (simp add: fresh_world_def)
  have b: "scripted three_pages (length (requests fresh_world)) 0 limit_const =
           Json (Some [rec_A, rec_B]) (Some 3)"
    by (simp add: scripted_def three_pages_def fresh_world_def)
  have c: "scripted three_pages (Suc (length (requests fresh_world))) limit_const limit_const =
           Json (Some [rec_C]) (Some 3)"
    by (simp add: scripted_def three_pages_def fresh_world_def)
  from load_all_three_pages [where up = "scripted three_pages" and w = fresh_world, OF a b c] show ?thesis
    by (simp add: fresh_world_def limit_const_def)
qed

text \<open>
  C4. At every point of a run, with any records accumulated so far: if the next five
  fetches, all for the current cursor, fail in a way that is retried (a status of the
  retry list, or another exception), the run ends there. The cache holds exactly the
  accumulated records, \<^verbatim>\<open>cache_loaded\<close> is true, and the five requests for that cursor
  are the last requests sent: no later page is asked for.
\<close>

theorem load_loop_retries_exhausted:
  assumes "\<forall>i < max_retries. retryable_failure (up (length (requests w) + i) skip limit_const)"
  shows "\<exists>w'. load_loop up w skip acc = Some w' \<and>
              message_cache w' = acc \<and> cache_loaded w' \<and>
              requests w' = requests w @ replicate max_retries (skip, limit_const)"
proof -
  from retry_loop_exhausted [where retry_count = 0 and up = up and w = w and skip = skip and acc = acc]
       assms
  obtain w1 where ex: "retry_loop up w skip acc 0 False = Exited w1 skip acc False"
    and rq: "requests w1 = requests w @ replicate max_retries (skip, limit_const)"
    by auto
  from load_loop_failed [OF ex] rq show ?thesis by simp
qed

text \<open>
  One page of two records, then status 429 five times.
\<close>

theorem load_loop_retries_exhausted_witness:
  "\<exists>w'. load_all_messages (scripted page_then_429) fresh_world = Some w' \<and>
         message_cache w' = [rec_A, rec_B] \<and> cache_loaded w' \<and>
         requests w' = [(0, 100), (100, 100), (100, 100), (100, 100), (100, 100), (100, 100)]"
proof -
  let ?w = "\<lparr>message_cache = [], cache_loaded = False, requests = [(0, 100)], sleeps = [1]\<rparr>"
  have "retryable_failure (scripted page_then_429 (length (requests ?w) + i) 100 limit_const)"
    if "i < max_retries" for i
    using that by (simp add: scripted_def page_then_429_def max_retries_def retry_statuses_def)
  then have h: "\<forall>i < max_retries.
      retryable_failure (scripted page_then_429 (length (requests ?w) + i) 100 limit_const)"
    by simp
  from load_loop_retries_exhausted
         [where up = "scripted page_then_429" and w = ?w and skip = 100 and acc = "[rec_A, rec_B]",
          OF h]
  show ?thesis
    by (simp add: page_then_429_first max_retries_def limit_const_def numeral_eq_Suc)
qed

text \<open>
  C5, as the loop has it. The loop adds 1 to \<^verbatim>\<open>retry_count\<close> first and computes the
  wait from the new value. Starting from a count \<open>retry_count\<close>, after \<open>k\<close> fetches in a
  row that fail with a status of the retry list (the count staying within the budget of 5)
  the loop is back at its test with the count \<open>retry_count + k\<close>; it has sent \<open>k\<close>
  requests, all for the same cursor, and the waits were \<open>5 * 2 ^ (retry_count + 1)\<close>, ...,
  \<open>5 * 2 ^ (retry_count + k)\<close>, in this order. The wait before the first retry of a page
  is 10 time units.
\<close>

theorem retry_loop_backoff:
  assumes "retry_count + k \<le> max_retries"
    and "\<forall>i < k. \<exists>status_code \<in> set retry_statuses.
           up (length (requests w) + i) skip limit_const = HTTPStatusError status_code"
  shows "retry_loop up w skip acc retry_count False =
         retry_loop up
           (w\<lparr>requests := requests w @ replicate k (skip, limit_const),
              sleeps := sleeps w @ map (\<lambda>i. 5 * 2 ^ (retry_count + i + 1)) [0..<k]\<rparr>)
           skip acc (retry_count + k) False"
  using assms
proof (induction k)
  case 0
  then show ?case by simp
next
  case (Suc k)
  let ?wk = "w\<lparr>requests := requests w @ replicate k (skip, limit_const),
                sleeps := sleeps w @ map (\<lambda>i. 5 * 2 ^ (retry_count + i + 1)) [0..<k]\<rparr>"
  from Suc.prems have lt: "retry_count + k < max_retries" by simp
  from Suc.prems(2) obtain status_code where st: "status_code \<in> set retry_statuses"
    and r: "up (length (requests w) + k) skip limit_const = HTTPStatusError status_code"
    by blast
  from r have r': "up (length (requests ?wk)) skip limit_const = HTTPStatusError status_code"
    by simp
  have "retry_loop up w skip acc retry_count False =
        retry_loop up ?wk skip acc (retry_count + k) False"
    using Suc by simp
  also have "\<dots> = retry_loop up
           (?wk\<lparr>requests := requests ?wk @ [(skip, limit_const)],
                sleeps := sleeps ?wk @ [5 * 2 ^ (retry_count + k + 1)]\<rparr>)
           skip acc (retry_count + k + 1) False"
    by (rule retry_loop_status_retry [where up = up and w = ?wk and skip = skip, OF lt r' st])
  finally show ?case
    by (simp add: replicate_append_same)
qed

theorem retry_loop_backoff_witness:
  "retry_loop (scripted only_429) fresh_world 0 [] 0 False =
   retry_loop (scripted only_429)
     \<lparr>message_cache = [], cache_loaded = False, requests = [(0, 100)], sleeps = [10]\<rparr>
     0 [] 1 False"
proof -
  have a: "0 + 1 \<le> max_retries" by (simp add: max_retries_def)
  have b: "\<forall>i < 1. \<exists>status_code \<in> set retry_statuses.
             scripted only_429 (length (requests fresh_world) + i) 0 limit_const =
             HTTPStatusError status_code"
    by (simp add: scripted_def only_429_def fresh_world_def retry_statuses_def)
  from retry_loop_backoff [where up = "scripted only_429" and w = fresh_world and skip = 0
         and acc = "[]", OF a b]
  show ?thesis by (simp add: fresh_world_def limit_const_def)
qed

text \<open>
  Status 429 on every attempt, from a fresh process: the waits are 10, 20, 40, 80 and 160
  time units, not 5, 10, 20, 40 and 80.
\<close>

theorem first_backoff_counterexample:
  "map_option sleeps (load_all_messages (scripted only_429) fresh_world) =
     Some [10, 20, 40, 80, 160] \<and>
   map_option sleeps (load_all_messages (scripted only_429) fresh_world) \<noteq>
     Some [5 * 2 ^ 0, 5 * 2 ^ 1, 5 * 2 ^ 2, 5 * 2 ^ 3, 5 * 2 ^ 4]"
  by (simp add: only_429_run)

text \<open>
  C7. Called with the cache loaded, \<^verbatim>\<open>load_all_messages\<close> returns the state as it is:
  no request is sent, and cache and flag are unchanged. \<^verbatim>\<open>refresh_cache\<close> is the
  loading loop started at cursor 0 with an empty accumulator, whatever the flag was. When
  it returns, \<^verbatim>\<open>cache_loaded\<close> is true, at least one request has been sent, and the
  cache is exactly the records delivered by the responses to the requests of this run:
  nothing of the earlier cache is kept.
\<close>

theorem refresh_replaces:
  "(cache_loaded w \<longrightarrow> load_all_messages up w = Some w) \<and>
   refresh_cache up w = load_loop up (w\<lparr>cache_loaded := False\<rparr>) 0 [] \<and>
   (\<forall>w'. refresh_cache up w = Some w' \<longrightarrow>
      cache_loaded w' \<and>
      (\<exists>new. new \<noteq> [] \<and> requests w' = requests w @ new \<and>
             message_cache w' = fetched up (length (requests w)) new))"
proof -
  have start: "refresh_cache up w = load_loop up (w\<lparr>cache_loaded := False\<rparr>) 0 []"
    by (simp add: refresh_cache_def load_all_messages_def)
  have "cache_loaded w' \<and>
        (\<exists>new. new \<noteq> [] \<and> requests w' = requests w @ new \<and>
               message_cache w' = fetched up (length (requests w)) new)"
    if "refresh_cache up w = Some w'" for w'
  proof -
    from that start have "load_loop up (w\<lparr>cache_loaded := False\<rparr>) 0 [] = Some w'" by simp
    from load_loop_inv [OF this] show ?thesis
      by (auto simp: run_inv_def)
  qed
  with start show ?thesis by (simp add: load_all_messages_def)
qed

text \<open>
  A loaded cache of three records, refreshed from an upstream that has one record.
\<close>

theorem refresh_replaces_witness:
  "load_all_messages (scripted page_without_total) loaded_world = Some loaded_world \<and>
   message_cache loaded_world = [rec_A, rec_B, rec_C] \<and>
   refresh_cache (scripted page_without_total) loaded_world =
   Some \<lparr>message_cache = [rec_B], cache_loaded = True, requests = [(0, 100)], sleeps = [1]\<rparr> \<and>
   fetched (scripted page_without_total) 0 [(0, 100)] = [rec_B]"
proof -
  have l: "cache_loaded loaded_world" by (simp add: loaded_world_def)
  have f: "fetched (scripted page_without_total) 0 [(0, 100)] = [rec_B]"
    by (simp add: scripted_def page_without_total_def)
  from refresh_replaces [of loaded_world "scripted page_without_total"] l f
  show ?thesis by (simp add: refresh_example) (simp add: loaded_world_def)
qed

text \<open>
  C10. At every point of a run: if the page fetched next has items but no \<^verbatim>\<open>total\<close>,
  the total is read as 0, the test \<^verbatim>\<open>len(all_messages) >= total\<close> holds, and the run
  ends on this page: the cache is the records accumulated before followed by the items of
  the page, and \<^verbatim>\<open>cache_loaded\<close> is true.
\<close>

theorem load_loop_missing_total:
  assumes "up (length (requests w)) skip limit_const = Json (Some items) None"
    and "items \<noteq> []"
  shows "load_loop up w skip acc =
         Some (w\<lparr>requests := requests w @ [(skip, limit_const)], sleeps := sleeps w @ [1],
                 cache_loaded := True, message_cache := acc @ items\<rparr>)"
proof -
  have "retry_loop up w skip acc 0 False =
        Returned (w\<lparr>requests := requests w @ [(skip, limit_const)], sleeps := sleeps w @ [1],
                    cache_loaded := True, message_cache := acc @ items\<rparr>)"
    by (rule retry_loop_last_page [where data_total = None])
       (use assms in \<open>simp_all add: max_retries_def\<close>)
  then show ?thesis by (rule load_loop_returned)
qed

theorem load_loop_missing_total_witness:
  "load_all_messages (scripted page_without_total) fresh_world =
   Some \<lparr>message_cache = [rec_B], cache_loaded = True, requests = [(0, 100)], sleeps = [1]\<rparr>"
proof -
  have a: "scripted page_without_total (length (requests fresh_world)) 0 limit_const =
           Json (Some [rec_B]) None"
    by (simp add: scripted_def page_without_total_def fresh_world_def)
  have b: "[rec_B] \<noteq> []" by simp
  from load_loop_missing_total [where up = "scripted page_without_total" and w = fresh_world
      and skip = 0 and acc = "[]", OF a b] show ?thesis
    by (simp add: load_all_messages_def fresh_world_def limit_const_def)
qed

end
